theory Spec2Isabelle
  imports Complex_Main "HOL-Library.Multiset" "HOL-Library.Sublist"
begin

section \<open>Errors and calls that may not return\<close>

text \<open>
  The exceptions of \<open>auction_scraper.py\<close> that the model distinguishes.
  \<open>IndexError\<close> is Python's error for a list index out of range, \<open>DriverInitError\<close>
  stands for whatever \<open>setup_driver\<close> re-raises, \<open>PageLoadError\<close> for any exception of
  one scraping attempt (navigation error or timeout, a wait that fails with something other
  than \<open>TimeoutException\<close>), and \<open>LoopError\<close> for an exception raised by a statement of
  the orchestration loop itself.
\<close>

datatype error = IndexError | DriverInitError | PageLoadError | LoopError

text \<open>
  A call on the identity pool either blocks for ever on the pool's lock, raises, or returns.
\<close>

datatype 'a call = Hangs | Raises error | Returns 'a

section \<open>Egress identity pool: class \<open>ProxyRotator\<close>\<close>

text \<open>
  The fields of \<open>ProxyRotator\<close>. \<open>lock_held\<close> is the state of \<open>self.lock\<close>, a
  \<open>threading.Lock\<close>: it is not re-entrant, so a \<open>with self.lock\<close> that finds it taken
  waits until the holder releases it. The model follows one thread; a lock found taken is
  then held by the caller's own call chain, and the wait never ends.
\<close>

record ProxyRotator =
  proxies :: "string list"
  current_index :: nat
  lock_held :: bool
  last_update :: real

definition update_interval :: real where
  "update_interval = 300"

definition ProxyRotator_init :: ProxyRotator where
  "ProxyRotator_init = \<lparr>proxies = [], current_index = 0, lock_held = False, last_update = 0\<rparr>"

text \<open>
  What the outside world answers to the pool: the clock read by \<open>get_proxy\<close> and the one
  read later by \<open>update_proxies\<close>, the reply of the proxy listing (first entry of
  \<open>PROXY_PROVIDERS\<close>), the order in which Python iterates over the set \<open>new_proxies\<close>
  (a rank per element), and the reply to each probe of \<open>_test_proxy\<close>.
\<close>

datatype http_reply = RequestFailed | Status nat string

record pool_env =
  clock :: real
  clock_at_update :: real
  provider :: http_reply
  set_order :: "string \<Rightarrow> nat"
  probe :: "string \<Rightarrow> http_reply"

text \<open>\<open>str.strip()\<close> and \<open>str.split('\n')\<close> on strings of 8-bit characters.\<close>

definition is_space :: "char \<Rightarrow> bool" where
  "is_space c = (let n = (of_char c :: nat) in
     (9 \<le> n \<and> n \<le> 13) \<or> (28 \<le> n \<and> n \<le> 32) \<or> n = 133 \<or> n = 160)"

definition strip :: "string \<Rightarrow> string" where
  "strip s = rev (dropWhile is_space (rev (dropWhile is_space s)))"

fun split_on :: "char \<Rightarrow> string \<Rightarrow> string list" where
  "split_on d [] = [[]]"
| "split_on d (c # cs) =
     (if c = d then [] # split_on d cs
      else (case split_on d cs of [] \<Rightarrow> [[c]] | w # ws \<Rightarrow> (c # w) # ws))"

text \<open>\<open>_test_proxy\<close>: true when the probe answers 200, false on any other answer or exception.\<close>

definition test_proxy :: "pool_env \<Rightarrow> string \<Rightarrow> bool" where
  "test_proxy env proxy =
     (case probe env proxy of RequestFailed \<Rightarrow> False | Status code body \<Rightarrow> code = 200)"

text \<open>
  \<open>list(new_proxies)\<close>: the lines of the stripped listing, without repetition, in the
  set's iteration order; empty when the request fails or does not answer 200.
\<close>

definition new_proxies :: "pool_env \<Rightarrow> string list" where
  "new_proxies env =
     (case provider env of
        RequestFailed \<Rightarrow> []
      | Status code body \<Rightarrow>
          if code = 200
          then sort_key (set_order env) (remdups (split_on (CHR 0x0A) (strip body)))
          else [])"

text \<open>
  The loop over \<open>test_proxies\<close>, with \<open>valid_proxies\<close> as accumulator: a candidate is kept,
  stripped, when its probe succeeds, and the loop stops at ten valid proxies.
\<close>

fun validate :: "pool_env \<Rightarrow> string list \<Rightarrow> string list \<Rightarrow> string list" where
  "validate env [] valid_proxies = valid_proxies"
| "validate env (proxy # rest) valid_proxies =
     (if test_proxy env (strip proxy)
      then (let valid' = valid_proxies @ [strip proxy]
            in if length valid' \<ge> 10 then valid' else validate env rest valid')
      else validate env rest valid_proxies)"

text \<open>
  \<open>update_proxies\<close>: fetch, test the first 50 candidates, then take \<open>self.lock\<close> to store
  the result.
\<close>

definition update_proxies :: "pool_env \<Rightarrow> ProxyRotator \<Rightarrow> ProxyRotator call" where
  "update_proxies env r =
     (let valid_proxies = validate env (take 50 (new_proxies env)) []
      in if lock_held r then Hangs
         else Returns (r\<lparr>proxies := valid_proxies, current_index := 0,
                          last_update := clock_at_update env\<rparr>))"

text \<open>
  \<open>get_proxy\<close>: the whole body runs under \<open>with self.lock\<close>; the lock is released on
  return and on the \<open>IndexError\<close> of \<open>self.proxies[self.current_index]\<close>.
\<close>

definition get_proxy :: "pool_env \<Rightarrow> ProxyRotator \<Rightarrow> (string option \<times> ProxyRotator) call" where
  "get_proxy env r =
     (if lock_held r then Hangs
      else
        let r1 = r\<lparr>lock_held := True\<rparr> in
        case (if proxies r1 = [] \<or> clock env - last_update r1 > update_interval
              then update_proxies env r1 else Returns r1) of
          Hangs \<Rightarrow> Hangs
        | Raises e \<Rightarrow> Raises e
        | Returns r2 \<Rightarrow>
            if proxies r2 = [] then Returns (None, r2\<lparr>lock_held := False\<rparr>)
            else if current_index r2 < length (proxies r2)
            then Returns (Some (proxies r2 ! current_index r2),
                          r2\<lparr>current_index := (current_index r2 + 1) mod length (proxies r2),
                             lock_held := False\<rparr>)
            else Raises IndexError)"

text \<open>
  \<open>RetrySession.get\<close>: the proxy handed to \<open>self.session.get\<close> in \<open>kwargs['proxies']\<close>
  (\<open>None\<close> when the argument is left out), and the rotator afterwards. \<open>proxy_rotator\<close> is
  \<open>None\<close> when the session was built without one. An empty proxy string is falsy.
\<close>

definition RetrySession_get ::
  "pool_env \<Rightarrow> ProxyRotator option \<Rightarrow> (string option \<times> ProxyRotator option) call" where
  "RetrySession_get env proxy_rotator =
     (case proxy_rotator of
        None \<Rightarrow> Returns (None, None)
      | Some r \<Rightarrow>
          (case get_proxy env r of
             Hangs \<Rightarrow> Hangs
           | Raises e \<Rightarrow> Raises e
           | Returns (proxy, r') \<Rightarrow>
               (case proxy of
                  None \<Rightarrow> Returns (None, Some r')
                | Some p \<Rightarrow> if p = [] then Returns (None, Some r') else Returns (Some p, Some r'))))"

text \<open>
  A listing as a provider may serve it: three lines, the first ending in carriage return and
  line feed, the others in a line feed only. Every probe answers 200.
\<close>

definition mixed_listing :: string where
  "mixed_listing = ''10.0.0.1:80'' @ [CHR 0x0D, CHR 0x0A] @ ''10.0.0.1:80'' @ [CHR 0x0A]
     @ ''10.0.0.2:80'' @ [CHR 0x0A]"

definition mixed_env :: pool_env where
  "mixed_env = \<lparr>clock = 10, clock_at_update = 5, provider = Status 200 mixed_listing,
     set_order = (\<lambda>p. 0), probe = (\<lambda>p. Status 200 [])\<rparr>"

definition mixed_pool :: "nat \<Rightarrow> ProxyRotator" where
  "mixed_pool i = \<lparr>proxies = [''10.0.0.1:80'', ''10.0.0.1:80'', ''10.0.0.2:80''],
     current_index = i, lock_held = False, last_update = 5\<rparr>"

definition two_pool :: ProxyRotator where
  "two_pool = \<lparr>proxies = [''10.0.0.1:80'', ''10.0.0.2:80''], current_index = 1,
     lock_held = False, last_update = 5\<rparr>"

section \<open>Page fetch job: class \<open>PageScraper\<close>\<close>

text \<open>The dataclass \<open>ListingData\<close>; the two \<open>float\<close> fields are read as reals.\<close>

record ListingData =
  brand :: "string option"
  model :: "string option"
  price :: "real option"
  sold_date :: "string option"
  hours :: "real option"
  specs :: "string option"
  location :: "string option"
  condition :: "string option"

text \<open>
  What the browser and the site answer to one job. For \<open>setup_driver\<close>: the driver
  starts through \<open>ChromeDriverManager\<close>; that fails and the fallback
  \<open>webdriver.Chrome(options=...)\<close> starts; both fail; or a browser starts and one of the two
  stealth commands after it raises. For the page: an exception before the listings are in
  hand (pacing sleep, \<open>driver.get\<close>, a wait that fails otherwise than by timeout); the
  \<open>TimeoutException\<close> of the wait; or the listing elements. For one listing element: a
  parsed record; \<open>extract_listing_data\<close> returns nothing; \<open>parse_listing_data\<close> returns
  nothing; \<open>StaleElementReferenceException\<close>; any other exception.
\<close>

datatype setup_outcome = DriverStarted | FallbackStarted | NoBrowser | StealthError

datatype listing = Parsed ListingData | NoData | NotParsed | StaleElement | ListingError

datatype page_outcome = NavError | WaitTimeout | Listings "listing list"

record attempt_env =
  on_setup :: setup_outcome
  on_page :: page_outcome

text \<open>
  \<open>on_init\<close> answers the \<open>setup_driver\<close> call of the constructor, \<open>on_attempt k\<close> the
  pass of the retry loop with \<open>retry_count = k\<close> (its \<open>on_setup\<close> is asked only if that
  pass calls \<open>setup_driver\<close>).
\<close>

record job_env =
  on_init :: setup_outcome
  on_attempt :: "nat \<Rightarrow> attempt_env"

text \<open>
  Instrumentation of a job: a browser session is opened (\<open>webdriver.Chrome\<close> returns) or
  quit (\<open>driver.quit()\<close> is called; an exception of \<open>quit\<close> is swallowed), a pass of the
  retry loop begins, a session navigates to the URL of a page, the job sleeps
  \<open>random.uniform(2, 5)\<close> seconds before the next pass.
\<close>

datatype event =
    is_Open: Open nat
  | is_Quit: Quit nat
  | is_Attempt: Attempt nat
  | is_Get: Get nat int
  | is_RetrySleep: RetrySleep

text \<open>
  The scraper object: \<open>self.driver\<close> (a session number, or \<open>None\<close>), the number of
  sessions opened so far, which numbers the next one, and the events so far.
\<close>

record PageScraper =
  driver :: "nat option"
  sessions_opened :: nat
  trace :: "event list"

definition log :: "event \<Rightarrow> PageScraper \<Rightarrow> PageScraper" where
  "log e s = s\<lparr>trace := trace s @ [e]\<rparr>"

definition open_session :: "PageScraper \<Rightarrow> PageScraper" where
  "open_session s =
     log (Open (sessions_opened s))
       (s\<lparr>driver := Some (sessions_opened s), sessions_opened := Suc (sessions_opened s)\<rparr>)"

text \<open>
  \<open>setup_driver\<close>: assigns \<open>self.driver\<close> as soon as a browser has started, and re-raises
  every exception; after \<open>StealthError\<close> the new session stays in \<open>self.driver\<close>.
\<close>

definition setup_driver :: "setup_outcome \<Rightarrow> PageScraper \<Rightarrow> (error + unit) \<times> PageScraper" where
  "setup_driver outcome s =
     (case outcome of
        DriverStarted \<Rightarrow> (Inr (), open_session s)
      | FallbackStarted \<Rightarrow> (Inr (), open_session s)
      | NoBrowser \<Rightarrow> (Inl DriverInitError, s)
      | StealthError \<Rightarrow> (Inl DriverInitError, open_session s))"

text \<open>\<open>PageScraper.__init__\<close>: sets \<open>self.driver = None\<close> and calls \<open>setup_driver\<close>.\<close>

definition PageScraper_init :: "job_env \<Rightarrow> (error + unit) \<times> PageScraper" where
  "PageScraper_init je =
     setup_driver (on_init je) \<lparr>driver = None, sessions_opened = 0, trace = []\<rparr>"

text \<open>\<open>if self.driver: try: self.driver.quit() except Exception: pass\<close>\<close>

definition quit_driver :: "PageScraper \<Rightarrow> PageScraper" where
  "quit_driver s = (case driver s of None \<Rightarrow> s | Some d \<Rightarrow> log (Quit d) s)"

text \<open>The \<open>finally\<close> clause of \<open>scrape_page\<close>.\<close>

definition finally_clause :: "PageScraper \<Rightarrow> PageScraper" where
  "finally_clause s =
     (case driver s of None \<Rightarrow> s | Some d \<Rightarrow> (quit_driver s)\<lparr>driver := None\<rparr>)"

text \<open>The loop over \<open>listings\<close>: a record is appended only for a parsed listing.\<close>

fun process_listing :: "listing \<Rightarrow> ListingData option" where
  "process_listing (Parsed d) = Some d"
| "process_listing NoData = None"
| "process_listing NotParsed = None"
| "process_listing StaleElement = None"
| "process_listing ListingError = None"

definition process_listings :: "listing list \<Rightarrow> ListingData list" where
  "process_listings ls = List.map_filter process_listing ls"

text \<open>
  The body of the \<open>try\<close> in \<open>scrape_page\<close>: \<open>Inl\<close> is an exception that reaches
  \<open>except Exception\<close>, \<open>Inr\<close> a \<open>return\<close>. \<open>hasattr(self.driver, 'current_url')\<close> holds for
  every WebDriver object, so \<open>setup_driver\<close> is called exactly when \<open>self.driver\<close> is
  \<open>None\<close>; an exception raised while the attribute is read counts as \<open>NavError\<close>.
\<close>

definition try_body ::
  "attempt_env \<Rightarrow> int \<Rightarrow> PageScraper \<Rightarrow> (error + ListingData list) \<times> PageScraper" where
  "try_body ae page_num s =
     (case (if driver s = None then setup_driver (on_setup ae) s else (Inr (), s)) of
        (Inl e, s1) \<Rightarrow> (Inl e, s1)
      | (Inr u, s1) \<Rightarrow>
          (case driver s1 of
             None \<Rightarrow> (Inl PageLoadError, s1)
           | Some d \<Rightarrow>
               (case on_page ae of
                  NavError \<Rightarrow> (Inl PageLoadError, log (Get d page_num) s1)
                | WaitTimeout \<Rightarrow> (Inr [], log (Get d page_num) s1)
                | Listings ls \<Rightarrow>
                    (if ls = [] then (Inr [], log (Get d page_num) s1)
                     else (Inr (process_listings ls), log (Get d page_num) s1)))))"

definition max_retries :: nat where
  "max_retries = 3"

text \<open>
  The \<open>while retry_count < max_retries\<close> loop of \<open>scrape_page\<close>. The result \<open>None\<close> is
  Python's \<open>None\<close>, which the function returns if the loop ends without a \<open>return\<close>.
\<close>

function scrape_loop ::
  "job_env \<Rightarrow> int \<Rightarrow> nat \<Rightarrow> PageScraper \<Rightarrow> ListingData list option \<times> PageScraper" where
  "scrape_loop je page_num retry_count s =
     (if retry_count < max_retries then
        (case try_body (on_attempt je retry_count) page_num (log (Attempt retry_count) s) of
           (Inr results, s1) \<Rightarrow> (Some results, finally_clause s1)
         | (Inl e, s1) \<Rightarrow>
             (let s2 = (quit_driver s1)\<lparr>driver := None\<rparr> in
              if retry_count + 1 < max_retries
              then scrape_loop je page_num (retry_count + 1) (finally_clause (log RetrySleep s2))
              else (Some [], finally_clause s2)))
      else (None, s))"
  by pat_completeness auto
termination
  by (relation "measure (\<lambda>(je, page_num, retry_count, s). max_retries - retry_count)") auto

declare scrape_loop.simps [simp del]

definition scrape_page ::
  "job_env \<Rightarrow> int \<Rightarrow> PageScraper \<Rightarrow> ListingData list option \<times> PageScraper" where
  "scrape_page je page_num s = scrape_loop je page_num 0 s"

text \<open>
  \<open>MachineryPeteScraper._scrape_single_page\<close>: build a \<open>PageScraper\<close>, then call
  \<open>scrape_page\<close>. An exception of the constructor leaves the function.
\<close>

definition scrape_single_page ::
  "job_env \<Rightarrow> int \<Rightarrow> (error + ListingData list option) \<times> PageScraper" where
  "scrape_single_page je page_num =
     (case PageScraper_init je of
        (Inl e, s) \<Rightarrow> (Inl e, s)
      | (Inr u, s) \<Rightarrow> (case scrape_page je page_num s of (r, s') \<Rightarrow> (Inr r, s')))"

subsection \<open>Notions used to state the properties of a job\<close>

text \<open>The event is a navigation of session \<open>d\<close>.\<close>

definition uses_session :: "nat \<Rightarrow> event \<Rightarrow> bool" where
  "uses_session d e = (case e of Get d' p \<Rightarrow> d' = d | _ \<Rightarrow> False)"

text \<open>
  The bookkeeping of sessions that every step of a job keeps: sessions are numbered in the
  order they are opened, each one opened once; every session but the one in \<open>self.driver\<close>
  has been quit once, and that one not yet; no session has navigated twice, and none that
  is not opened yet has navigated; and every pass of the retry loop after the first began
  with as many sessions quit as opened.
\<close>

definition sessions_ok :: "PageScraper \<Rightarrow> bool" where
  "sessions_ok s \<longleftrightarrow>
     (\<forall>d. count_list (trace s) (Open d) = (if d < sessions_opened s then 1 else 0)) \<and>
     (\<forall>d. count_list (trace s) (Quit d)
            = (if d < sessions_opened s \<and> driver s \<noteq> Some d then 1 else 0)) \<and>
     (\<forall>d. driver s = Some d \<longrightarrow> d < sessions_opened s) \<and>
     (\<forall>d. length (filter (uses_session d) (trace s)) \<le> 1) \<and>
     (\<forall>d. sessions_opened s \<le> d \<longrightarrow> filter (uses_session d) (trace s) = []) \<and>
     length (filter is_Open (trace s)) = sessions_opened s \<and>
     length (filter is_Quit (trace s)) + (if driver s = None then 0 else 1) = sessions_opened s \<and>
     (\<forall>pre k post. trace s = pre @ Attempt (Suc k) # post \<longrightarrow>
        length (filter is_Open pre) = length (filter is_Quit pre))"

definition driver_unused :: "PageScraper \<Rightarrow> bool" where
  "driver_unused s \<longleftrightarrow> (\<forall>d. driver s = Some d \<longrightarrow> filter (uses_session d) (trace s) = [])"

text \<open>
  The passes of the retry loop from \<open>retry_count = k\<close> on, with \<open>n\<close> further passes, each
  separated from the one before by the sleep.
\<close>

fun passes :: "nat \<Rightarrow> nat \<Rightarrow> event list" where
  "passes k 0 = [Attempt k]"
| "passes k (Suc n) = Attempt k # RetrySleep # passes (Suc k) n"

definition is_pacing :: "event \<Rightarrow> bool" where
  "is_pacing e \<longleftrightarrow> is_Attempt e \<or> is_RetrySleep e"

text \<open>
  The pass with \<open>retry_count = k\<close> ends in \<open>except Exception\<close>: the page raises, or (in a
  pass after the first, which has to start a browser) \<open>setup_driver\<close> raises.
\<close>

definition attempt_raises :: "job_env \<Rightarrow> nat \<Rightarrow> bool" where
  "attempt_raises je k \<longleftrightarrow>
     on_page (on_attempt je k) = NavError \<or>
     (0 < k \<and> (on_setup (on_attempt je k) = NoBrowser \<or>
               on_setup (on_attempt je k) = StealthError))"

definition constructed :: "job_env \<Rightarrow> bool" where
  "constructed je \<longleftrightarrow> on_init je = DriverStarted \<or> on_init je = FallbackStarted"

subsection \<open>Sample jobs\<close>

definition tractor :: "int \<Rightarrow> int \<Rightarrow> ListingData" where
  "tractor page_num i =
     \<lparr>brand = Some ''Deere'', model = Some ''4020'', price = Some (of_int (1000 * page_num + i)),
      sold_date = None, hours = None, specs = None, location = None, condition = None\<rparr>"

text \<open>
  A job whose first pass fails in navigation, whose second pass starts a browser that fails
  in the stealth commands, and whose third pass finds two listings, one of them stale.
\<close>

definition rough_job :: job_env where
  "rough_job = \<lparr>on_init = DriverStarted,
     on_attempt = (\<lambda>k. if k = 0 then \<lparr>on_setup = DriverStarted, on_page = NavError\<rparr>
                        else if k = 1 then \<lparr>on_setup = StealthError, on_page = WaitTimeout\<rparr>
                        else \<lparr>on_setup = FallbackStarted,
                              on_page = Listings [Parsed (tractor 7 1), StaleElement]\<rparr>)\<rparr>"

text \<open>A job whose three passes all fail in navigation.\<close>

definition hopeless_job :: job_env where
  "hopeless_job = \<lparr>on_init = FallbackStarted,
     on_attempt = (\<lambda>k. \<lparr>on_setup = DriverStarted, on_page = NavError\<rparr>)\<rparr>"

text \<open>A job whose constructor finds no browser to start.\<close>

definition no_browser_job :: job_env where
  "no_browser_job = \<lparr>on_init = NoBrowser,
     on_attempt = (\<lambda>k. \<lparr>on_setup = DriverStarted, on_page = Listings [Parsed (tractor 7 1)]\<rparr>)\<rparr>"

section \<open>Crawl orchestrator: class \<open>MachineryPeteScraper\<close>\<close>

text \<open>
  The result store: the two files \<open>auction_results.json\<close> and \<open>auction_results.csv\<close>.
  A file is absent, holds the records of one complete write, or was opened for writing
  (and so truncated) by a write that then failed.
\<close>

datatype file_content = Missing | Holds "ListingData list" | Damaged

record store =
  json_file :: file_content
  csv_file :: file_content

text \<open>
  How one call of \<open>save_results\<close> fares: both files are written; \<open>open\<close> of the JSON file
  fails; \<open>json.dump\<close> fails; \<open>open\<close> of the CSV file fails; writing the CSV rows fails.
  Each failure is caught and logged inside \<open>save_results\<close>.
\<close>

datatype io_outcome = WriteOk | JsonOpenFails | JsonDumpFails | CsvOpenFails | CsvWriteFails

text \<open>
  \<open>save_results\<close>, with \<open>self.results\<close> as argument (\<open>scrape_pages\<close> assigns it just before
  each call).
\<close>

definition save_results :: "io_outcome \<Rightarrow> ListingData list \<Rightarrow> store \<Rightarrow> store" where
  "save_results io results st =
     (if results = [] then st
      else (case io of
              WriteOk \<Rightarrow> \<lparr>json_file = Holds results, csv_file = Holds results\<rparr>
            | JsonOpenFails \<Rightarrow> st
            | JsonDumpFails \<Rightarrow> st\<lparr>json_file := Damaged\<rparr>
            | CsvOpenFails \<Rightarrow> st\<lparr>json_file := Holds results\<rparr>
            | CsvWriteFails \<Rightarrow> \<lparr>json_file = Holds results, csv_file = Damaged\<rparr>))"

text \<open>
  An exception raised by the orchestration loop itself, in the pass of the batch loop where
  it happens: before any job of the batch has run (the executor cannot be created, a job
  cannot be submitted), or after the results of the batch were collected and before they
  are saved (an exception while iterating \<open>as_completed\<close> or leaving the executor, such as
  \<open>MemoryError\<close>).
\<close>

datatype fault = RaiseAtDispatch | RaiseBeforeSave

text \<open>
  The world of one crawl: what each job meets (by page, and by pass: 0 for the job of the
  main pass, 1 for the job of the retry pass), the order in which the jobs of a batch
  complete (\<open>as_completed\<close> yields a page of smaller rank first), the faults of the batch
  loop by batch number, and the outcome of each call of \<open>save_results\<close> by call number.
\<close>

record world =
  job_of :: "int \<Rightarrow> nat \<Rightarrow> job_env"
  finish_rank :: "int \<Rightarrow> nat"
  loop_fault :: "nat \<Rightarrow> fault option"
  io_of :: "nat \<Rightarrow> io_outcome"

text \<open>
  The state of a crawl: the locals \<open>all_results\<close> and \<open>failed_pages\<close>, the files, and as
  instrumentation the pages submitted to the executor, the pages retried, and the argument
  of every call of \<open>save_results\<close>.
\<close>

record crawl =
  all_results :: "ListingData list"
  failed_pages :: "int list"
  files :: store
  submitted :: "int list"
  retried :: "int list"
  saved :: "ListingData list list"

definition new_crawl :: "store \<Rightarrow> crawl" where
  "new_crawl st = \<lparr>all_results = [], failed_pages = [], files = st,
     submitted = [], retried = [], saved = []\<rparr>"

text \<open>
  What a job returns to the orchestrator when run on its own: its records, and nothing
  when it raises or returns \<open>None\<close>.
\<close>

definition page_yield :: "world \<Rightarrow> nat \<Rightarrow> int \<Rightarrow> ListingData list" where
  "page_yield w pass page_num =
     (case fst (scrape_single_page (job_of w page_num pass) page_num) of
        Inl e \<Rightarrow> []
      | Inr None \<Rightarrow> []
      | Inr (Some page_results) \<Rightarrow> page_results)"

text \<open>
  The body of the loop over \<open>as_completed\<close>: \<open>future.result()\<close> re-raises the exception of
  the job; a result that is not truthy (empty list, \<open>None\<close>) counts as a failed page.
\<close>

definition collect :: "world \<Rightarrow> crawl \<Rightarrow> int \<Rightarrow> crawl" where
  "collect w c page_num =
     (case fst (scrape_single_page (job_of w page_num 0) page_num) of
        Inl e \<Rightarrow> c\<lparr>failed_pages := failed_pages c @ [page_num]\<rparr>
      | Inr None \<Rightarrow> c\<lparr>failed_pages := failed_pages c @ [page_num]\<rparr>
      | Inr (Some page_results) \<Rightarrow>
          if page_results \<noteq> [] then c\<lparr>all_results := all_results c @ page_results\<rparr>
          else c\<lparr>failed_pages := failed_pages c @ [page_num]\<rparr>)"

text \<open>
  One batch: the pages \<open>batch_start..batch_end\<close> are submitted in order and collected in
  the order of completion.
\<close>

definition run_batch :: "world \<Rightarrow> int \<Rightarrow> int \<Rightarrow> crawl \<Rightarrow> crawl" where
  "run_batch w batch_start batch_end c =
     foldl (collect w) (c\<lparr>submitted := submitted c @ [batch_start..batch_end]\<rparr>)
       (sort_key (finish_rank w) [batch_start..batch_end])"

text \<open>\<open>if all_results: self.results = all_results; self.save_results()\<close>\<close>

definition flush :: "world \<Rightarrow> crawl \<Rightarrow> crawl" where
  "flush w c =
     (if all_results c \<noteq> []
      then c\<lparr>files := save_results (io_of w (length (saved c))) (all_results c) (files c),
             saved := saved c @ [all_results c]\<rparr>
      else c)"

text \<open>
  The loop \<open>for batch_start in range(start_page, end_page + 1, batch_size)\<close>, from the pass
  numbered \<open>k\<close> on. The source fixes \<open>batch_size = 2\<close>; the loop is written for any step of
  at least 1 (for a smaller step, which the source never has, it ends at once).
\<close>

function batches ::
  "world \<Rightarrow> int \<Rightarrow> int \<Rightarrow> nat \<Rightarrow> int \<Rightarrow> crawl \<Rightarrow> (error + unit) \<times> crawl" where
  "batches w batch_size end_page k batch_start c =
     (if batch_size < 1 \<or> end_page < batch_start then (Inr (), c)
      else if loop_fault w k = Some RaiseAtDispatch then (Inl LoopError, c)
      else
        (let batch_end = min (batch_start + batch_size - 1) end_page;
             c1 = run_batch w batch_start batch_end c
         in if loop_fault w k = Some RaiseBeforeSave then (Inl LoopError, c1)
            else batches w batch_size end_page (k + 1) (batch_start + batch_size) (flush w c1)))"
  by pat_completeness auto
termination
  by (relation "measure (\<lambda>(w, batch_size, end_page, k, batch_start, c).
        nat (end_page + 1 - batch_start))") auto

declare batches.simps [simp del]

text \<open>
  The retry of one failed page: a new \<open>PageScraper\<close> and \<open>scrape_page\<close>, inside
  \<open>try ... except Exception\<close>.
\<close>

definition retry_page :: "world \<Rightarrow> crawl \<Rightarrow> int \<Rightarrow> crawl" where
  "retry_page w c page_num =
     (case fst (scrape_single_page (job_of w page_num 1) page_num) of
        Inl e \<Rightarrow> c\<lparr>retried := retried c @ [page_num]\<rparr>
      | Inr None \<Rightarrow> c\<lparr>retried := retried c @ [page_num]\<rparr>
      | Inr (Some page_results) \<Rightarrow>
          if page_results \<noteq> []
          then c\<lparr>all_results := all_results c @ page_results, retried := retried c @ [page_num]\<rparr>
          else c\<lparr>retried := retried c @ [page_num]\<rparr>)"

definition retry_pass :: "world \<Rightarrow> crawl \<Rightarrow> crawl" where
  "retry_pass w c = foldl (retry_page w) c (failed_pages c)"

text \<open>
  \<open>scrape_pages\<close>, with the batch size as a parameter: the batch loop, the retry pass and
  the final save. The handler of the outer \<open>try\<close> logs the exception and re-raises it.
\<close>

definition scrape_pages_with ::
  "world \<Rightarrow> int \<Rightarrow> int \<Rightarrow> int \<Rightarrow> store \<Rightarrow> (error + unit) \<times> crawl" where
  "scrape_pages_with w batch_size start_page end_page st =
     (case batches w batch_size end_page 0 start_page (new_crawl st) of
        (Inl e, c) \<Rightarrow> (Inl e, c)
      | (Inr u, c) \<Rightarrow> (Inr (), flush w (retry_pass w c)))"

definition scrape_pages :: "world \<Rightarrow> int \<Rightarrow> int \<Rightarrow> store \<Rightarrow> (error + unit) \<times> crawl" where
  "scrape_pages w start_page end_page st = scrape_pages_with w 2 start_page end_page st"

subsection \<open>Notions used to state the properties of a crawl\<close>

text \<open>
  Every set handed to \<open>save_results\<close> is a prefix of the one handed over next, and of the
  records accumulated so far.
\<close>

definition append_only :: "crawl \<Rightarrow> bool" where
  "append_only c \<longleftrightarrow>
     sorted_wrt prefix (saved c) \<and> (\<forall>f\<in>set (saved c). prefix f (all_results c))"

subsection \<open>Sample crawls\<close>

text \<open>
  The scenario of the specification: every page but page 3 shows three listings; on page
  3 the wait for the listings times out the first two times the page is tried, and the
  third time it shows two listings. \<open>scenario_attempt page_num g\<close> is what the attempt
  numbered \<open>g\<close> (from 0) on a page meets.
\<close>

definition scenario_attempt :: "int \<Rightarrow> nat \<Rightarrow> attempt_env" where
  "scenario_attempt page_num g =
     \<lparr>on_setup = DriverStarted,
      on_page = (if page_num = 3
                 then (if g < 2 then WaitTimeout
                       else Listings [Parsed (tractor 3 1), Parsed (tractor 3 2)])
                 else Listings [Parsed (tractor page_num 1), Parsed (tractor page_num 2),
                                Parsed (tractor page_num 3)])\<rparr>"

text \<open>
  The world of the scenario, for any order of completion. With \<open>carry\<close>, the attempts on
  a page are counted across its jobs: the retry job goes on where the job of the main pass
  stopped, which made one attempt. Without it, each job counts its own attempts from the
  first.
\<close>

definition scenario :: "bool \<Rightarrow> (int \<Rightarrow> nat) \<Rightarrow> world" where
  "scenario carry rank =
     \<lparr>job_of = (\<lambda>page_num pass.
        \<lparr>on_init = DriverStarted,
         on_attempt = (\<lambda>k. scenario_attempt page_num ((if carry then pass else 0) + k))\<rparr>),
      finish_rank = rank,
      loop_fault = (\<lambda>k. None),
      io_of = (\<lambda>n. WriteOk)\<rparr>"

definition no_files :: store where
  "no_files = \<lparr>json_file = Missing, csv_file = Missing\<rparr>"

text \<open>The scenario's world with an exception in the second pass of the batch loop.\<close>

definition faulty_scenario :: "fault \<Rightarrow> world" where
  "faulty_scenario f =
     (scenario True (\<lambda>p. 0))\<lparr>loop_fault := (\<lambda>k. if k = 1 then Some f else None)\<rparr>"

text \<open>A world in which the wait for the listings times out on every attempt on every page.\<close>

definition barren :: world where
  "barren =
     \<lparr>job_of = (\<lambda>page_num pass.
        \<lparr>on_init = DriverStarted,
         on_attempt = (\<lambda>k. \<lparr>on_setup = DriverStarted, on_page = WaitTimeout\<rparr>)\<rparr>),
      finish_rank = (\<lambda>p. 0),
      loop_fault = (\<lambda>k. None),
      io_of = (\<lambda>n. WriteOk)\<rparr>"

definition old_files :: store where
  "old_files = \<lparr>json_file = Holds [tractor 0 1], csv_file = Holds [tractor 0 1]\<rparr>"

section \<open>Properties of the identity pool\<close>

lemma get_proxy_refresh_hangs:
  "proxies r = [] \<or> clock env - last_update r > update_interval \<Longrightarrow> get_proxy env r = Hangs"
  by (auto simp: get_proxy_def update_proxies_def Let_def)

text \<open>
  C7. The specification: every call of \<open>get_proxy\<close> returns, and a refresh started from inside it
  does not block on the lock that \<open>get_proxy\<close> already holds. The code: on a new
  \<open>ProxyRotator\<close> (empty list), whatever the world answers, \<open>get_proxy\<close> takes the lock
  and calls \<open>update_proxies\<close>, whose own \<open>with self.lock\<close> never gets it; the same happens
  with a filled pool whose last update is more than 300 seconds old.
\<close>

theorem get_proxy_self_deadlock:
  "get_proxy env ProxyRotator_init = Hangs \<and>
   get_proxy (env\<lparr>clock := 301\<rparr>)
     \<lparr>proxies = [''10.0.0.1:80'', ''10.0.0.2:80''], current_index = 0,
      lock_held = False, last_update = 0\<rparr> = Hangs"
  by (simp add: get_proxy_refresh_hangs ProxyRotator_init_def update_interval_def)

lemma get_proxy_returns_Some:
  assumes "get_proxy env r = Returns (Some p, r')"
  shows "current_index r < length (proxies r) \<and> p = proxies r ! current_index r \<and>
         proxies r' = proxies r \<and>
         current_index r' = (current_index r + 1) mod length (proxies r)"
proof -
  from assms have nolock: "\<not> lock_held r"
    by (auto simp: get_proxy_def)
  from assms have fresh: "\<not> (proxies r = [] \<or> clock env - last_update r > update_interval)"
    using get_proxy_refresh_hangs [of r env] by auto
  from assms nolock fresh show ?thesis
    by (auto simp: get_proxy_def Let_def split: if_splits)
qed

text \<open>
  C8. The specification: when a refresh yields no usable identity, \<open>get_proxy\<close> returns \<open>None\<close> and
  \<open>RetrySession.get\<close> goes on without the \<open>proxies\<close> argument. The code: with the listing
  unreachable, \<open>update_proxies\<close> called on its own does leave the pool empty, but
  \<open>get_proxy\<close> on that pool, and \<open>RetrySession.get\<close> through it, block for ever on the lock
  (the defect of C7); no call of \<open>get_proxy\<close> ever returns \<open>None\<close>.
\<close>

theorem get_proxy_none_available_hangs:
  "update_proxies (env\<lparr>provider := RequestFailed\<rparr>) ProxyRotator_init
     = Returns (ProxyRotator_init\<lparr>last_update := clock_at_update env\<rparr>) \<and>
   get_proxy (env\<lparr>provider := RequestFailed\<rparr>) ProxyRotator_init = Hangs \<and>
   RetrySession_get (env\<lparr>provider := RequestFailed\<rparr>) (Some ProxyRotator_init) = Hangs \<and>
   get_proxy env' r \<noteq> Returns (None, r')"
proof -
  have a: "update_proxies (env\<lparr>provider := RequestFailed\<rparr>) ProxyRotator_init
     = Returns (ProxyRotator_init\<lparr>last_update := clock_at_update env\<rparr>)"
    by (simp add: update_proxies_def new_proxies_def ProxyRotator_init_def)
  have b: "get_proxy (env\<lparr>provider := RequestFailed\<rparr>) ProxyRotator_init = Hangs"
    by (simp add: get_proxy_refresh_hangs ProxyRotator_init_def)
  have c: "RetrySession_get (env\<lparr>provider := RequestFailed\<rparr>) (Some ProxyRotator_init) = Hangs"
    by (simp add: RetrySession_get_def b)
  have d: "get_proxy env' r \<noteq> Returns (None, r')"
  proof (cases "proxies r = []")
    case True
    then show ?thesis by (simp add: get_proxy_refresh_hangs)
  next
    case False
    then show ?thesis
      by (auto simp: get_proxy_def update_proxies_def Let_def split: if_splits)
  qed
  from a b c d show ?thesis by blast
qed

text \<open>
  C9. The specification: with at least two valid identities in the pool, two consecutive calls of
  \<open>get_proxy\<close> never return the same one. The code: \<open>update_proxies\<close> removes repeated
  lines (the set \<open>new_proxies\<close>) before it strips them, not after. The listing
  \<open>mixed_listing\<close> names two endpoints; its first two lines differ only by a trailing
  carriage return, so both enter the set, and after \<open>strip\<close> the validated list holds
  \<open>10.0.0.1:80\<close> twice. Two consecutive calls of \<open>get_proxy\<close> then return that identity
  twice, although the pool holds a second one.
\<close>

theorem get_proxy_same_identity_twice:
  "update_proxies mixed_env ProxyRotator_init = Returns (mixed_pool 0) \<and>
   get_proxy mixed_env (mixed_pool 0) = Returns (Some ''10.0.0.1:80'', mixed_pool 1) \<and>
   get_proxy mixed_env (mixed_pool 1) = Returns (Some ''10.0.0.1:80'', mixed_pool 2)"
  by (simp add: update_proxies_def new_proxies_def mixed_env_def mixed_listing_def
      mixed_pool_def ProxyRotator_init_def strip_def is_space_def test_proxy_def
      get_proxy_def update_interval_def Let_def)

text \<open>
  The rotation itself is sound: on a validated list of at least two entries, none of them
  twice, two consecutive calls that both return an identity return different ones, the
  entries at \<open>current_index\<close> and at the next index modulo the length.
\<close>

lemma get_proxy_round_robin:
  assumes "distinct (proxies r)" and "2 \<le> length (proxies r)"
    and "get_proxy env1 r = Returns (Some p1, r1)"
    and "get_proxy env2 r1 = Returns (Some p2, r2)"
  shows "p1 \<noteq> p2 \<and> p1 = proxies r ! current_index r \<and>
         p2 = proxies r ! ((current_index r + 1) mod length (proxies r))"
proof -
  let ?n = "length (proxies r)" and ?i = "current_index r"
  from get_proxy_returns_Some [OF assms(3)]
  have 1: "?i < ?n" "p1 = proxies r ! ?i" "proxies r1 = proxies r"
    "current_index r1 = (?i + 1) mod ?n" by auto
  from get_proxy_returns_Some [OF assms(4)] 1
  have 2: "p2 = proxies r ! ((?i + 1) mod ?n)" by simp
  have "(?i + 1) mod ?n \<noteq> ?i"
  proof (cases "?i + 1 < ?n")
    case True
    then show ?thesis by simp
  next
    case False
    with 1(1) have "?i + 1 = ?n" by simp
    with assms(2) show ?thesis by auto
  qed
  moreover have "(?i + 1) mod ?n < ?n" using assms(2) by (intro mod_less_divisor) linarith
  ultimately have "proxies r ! ?i \<noteq> proxies r ! ((?i + 1) mod ?n)"
    using assms(1) 1(1) by (simp add: nth_eq_iff_index_eq)
  with 1 2 show ?thesis by simp
qed

lemma get_proxy_round_robin_two_pool:
  "get_proxy mixed_env two_pool
     = Returns (Some ''10.0.0.2:80'', two_pool\<lparr>current_index := 0\<rparr>) \<and>
   get_proxy mixed_env (two_pool\<lparr>current_index := 0\<rparr>)
     = Returns (Some ''10.0.0.1:80'', two_pool)"
  by (simp add: get_proxy_def two_pool_def mixed_env_def update_interval_def Let_def)

section \<open>Properties of the page fetch job\<close>

lemmas job_eval = scrape_single_page_def PageScraper_init_def setup_driver_def open_session_def
  log_def scrape_page_def scrape_loop.simps try_body_def max_retries_def quit_driver_def
  finally_clause_def process_listings_def List.map_filter_simps Let_def

lemma snoc_eq_mid:
  "xs @ [e] = pre @ a # post \<longleftrightarrow>
     (post = [] \<and> e = a \<and> pre = xs) \<or> (\<exists>post'. post = post' @ [e] \<and> xs = pre @ a # post')"
  by (cases post rule: rev_cases) auto

lemma sessions_ok_open:
  assumes "sessions_ok s" "driver s = None"
  shows "sessions_ok (open_session s) \<and> driver_unused (open_session s)"
  using assms
  unfolding sessions_ok_def driver_unused_def open_session_def log_def
  by (auto simp: snoc_eq_mid uses_session_def)

lemma sessions_ok_quit:
  assumes "sessions_ok s"
  shows "sessions_ok ((quit_driver s)\<lparr>driver := None\<rparr>)"
  using assms
  unfolding sessions_ok_def quit_driver_def log_def
  by (auto simp: snoc_eq_mid uses_session_def split: option.splits)

lemma sessions_ok_finally:
  assumes "sessions_ok s"
  shows "sessions_ok (finally_clause s) \<and> driver (finally_clause s) = None"
  using assms sessions_ok_quit [OF assms]
  by (auto simp: finally_clause_def split: option.splits)

lemma sessions_ok_sleep:
  assumes "sessions_ok s"
  shows "sessions_ok (log RetrySleep s)"
  using assms
  unfolding sessions_ok_def log_def
  by (auto simp: snoc_eq_mid uses_session_def)

lemma sessions_ok_attempt:
  assumes "sessions_ok s" "driver s = None \<or> k = 0"
  shows "sessions_ok (log (Attempt k) s)"
  using assms
  unfolding sessions_ok_def log_def
  by (auto simp: snoc_eq_mid uses_session_def)

lemma sessions_ok_get:
  assumes "sessions_ok s" "driver_unused s" "driver s = Some d"
  shows "sessions_ok (log (Get d p) s)"
  using assms
  unfolding sessions_ok_def log_def driver_unused_def
  by (auto simp: snoc_eq_mid uses_session_def)

lemma driver_unused_log: "driver_unused s \<Longrightarrow> \<not> is_Get e \<Longrightarrow> driver_unused (log e s)"
  by (cases e) (auto simp: driver_unused_def log_def uses_session_def)

lemma sessions_ok_setup:
  assumes "sessions_ok s" "driver s = None" "setup_driver out s = (r, s')"
  shows "sessions_ok s' \<and> driver_unused s'"
  using assms sessions_ok_open [of s]
  by (cases out) (auto simp: setup_driver_def driver_unused_def)

lemma sessions_ok_try_body:
  assumes "sessions_ok s" "driver_unused s" "try_body ae p s = (r, s')"
  shows "sessions_ok s'"
proof (cases "driver s")
  case None
  obtain r1 s1 where st: "setup_driver (on_setup ae) s = (r1, s1)"
    by (cases "setup_driver (on_setup ae) s")
  from sessions_ok_setup [OF assms(1) None st]
  have ok: "sessions_ok s1" "driver_unused s1" by auto
  show ?thesis
    using assms(3) None st ok sessions_ok_get [OF ok]
    by (auto simp: try_body_def split: sum.splits option.splits page_outcome.splits if_splits)
next
  case (Some d)
  then show ?thesis
    using assms sessions_ok_get [OF assms(1,2) Some]
    by (auto simp: try_body_def split: page_outcome.splits if_splits)
qed

lemma sessions_ok_scrape_loop:
  assumes "sessions_ok s" "driver_unused s" "driver s = None \<or> retry_count = 0"
    "retry_count < max_retries"
  shows "sessions_ok (snd (scrape_loop je p retry_count s)) \<and>
         driver (snd (scrape_loop je p retry_count s)) = None"
  using assms
proof (induction je p retry_count s rule: scrape_loop.induct)
  case (1 je p rc s)
  let ?s0 = "log (Attempt rc) s"
  have ok0: "sessions_ok ?s0" "driver_unused ?s0"
    using "1.prems" by (auto intro: sessions_ok_attempt driver_unused_log)
  obtain r s1 where body: "try_body (on_attempt je rc) p ?s0 = (r, s1)"
    by (cases "try_body (on_attempt je rc) p ?s0")
  have ok1: "sessions_ok s1"
    using sessions_ok_try_body [OF ok0 body] .
  show ?case
  proof (cases r)
    case (Inr results)
    then show ?thesis
      using body "1.prems"(4) sessions_ok_finally [OF ok1]
      by (simp add: scrape_loop.simps [of je p rc s])
  next
    case (Inl e)
    let ?s2 = "(quit_driver s1)\<lparr>driver := None\<rparr>"
    have ok2: "sessions_ok ?s2" using sessions_ok_quit [OF ok1] .
    show ?thesis
    proof (cases "rc + 1 < max_retries")
      case True
      let ?s3 = "finally_clause (log RetrySleep ?s2)"
      have ok3: "sessions_ok ?s3" "driver ?s3 = None"
        using sessions_ok_finally [OF sessions_ok_sleep [OF ok2]] by auto
      have un3: "driver_unused ?s3" using ok3(2) by (simp add: driver_unused_def)
      have "sessions_ok (snd (scrape_loop je p (rc + 1) ?s3)) \<and>
            driver (snd (scrape_loop je p (rc + 1) ?s3)) = None"
        using "1.IH" [OF "1.prems"(4) body [symmetric] Inl refl True ok3(1) un3 _ True] ok3(2)
        by simp
      then show ?thesis
        using body Inl True "1.prems"(4)
        by (simp add: scrape_loop.simps [of je p rc s] Let_def)
    next
      case False
      then show ?thesis
        using body Inl "1.prems"(4) sessions_ok_finally [OF ok2]
        by (simp add: scrape_loop.simps [of je p rc s] Let_def)
    qed
  qed
qed

lemma PageScraper_init_constructed:
  "constructed je \<Longrightarrow>
   PageScraper_init je = (Inr (), open_session \<lparr>driver = None, sessions_opened = 0, trace = []\<rparr>)"
  by (auto simp: constructed_def PageScraper_init_def setup_driver_def)

lemma scrape_single_page_constructed:
  assumes "constructed je"
  shows "scrape_single_page je p =
    (Inr (fst (scrape_loop je p 0 (open_session \<lparr>driver = None, sessions_opened = 0, trace = []\<rparr>))),
     snd (scrape_loop je p 0 (open_session \<lparr>driver = None, sessions_opened = 0, trace = []\<rparr>)))"
  by (simp add: scrape_single_page_def PageScraper_init_constructed [OF assms]
      scrape_page_def split: prod.splits)

lemma sessions_ok_job:
  assumes "constructed je"
  shows "sessions_ok (snd (scrape_single_page je p)) \<and>
         driver (snd (scrape_single_page je p)) = None"
proof -
  let ?s0 = "\<lparr>driver = None, sessions_opened = 0, trace = []\<rparr>"
  have "sessions_ok ?s0" by (simp add: sessions_ok_def)
  then have ok: "sessions_ok (open_session ?s0)" "driver_unused (open_session ?s0)"
    using sessions_ok_open [of ?s0] by auto
  have "sessions_ok (snd (scrape_loop je p 0 (open_session ?s0))) \<and>
        driver (snd (scrape_loop je p 0 (open_session ?s0))) = None"
    using sessions_ok_scrape_loop [OF ok, of 0 je p] by (simp add: max_retries_def)
  then show ?thesis
    by (simp add: scrape_single_page_constructed [OF assms])
qed

text \<open>
  Once the constructor has returned, the sessions of a job are in order when
  \<open>scrape_page\<close> has returned: \<open>self.driver\<close> is \<open>None\<close>; every session was opened at
  most once, quit exactly as often as opened, and never navigated twice (so no pass reuses
  the session of an earlier pass); quits and opens are equal in number; and each pass
  after the first began with every session opened before it already quit, so each session
  is closed within the pass that owns it, whichever way that pass ends.
\<close>

lemma sessions_closed_after_construction:
  assumes "constructed je"
  shows "driver (snd (scrape_single_page je page_num)) = None \<and>
    (\<forall>d. count_list (trace (snd (scrape_single_page je page_num))) (Open d) \<le> 1 \<and>
         count_list (trace (snd (scrape_single_page je page_num))) (Quit d)
           = count_list (trace (snd (scrape_single_page je page_num))) (Open d) \<and>
         length (filter (uses_session d) (trace (snd (scrape_single_page je page_num)))) \<le> 1) \<and>
    length (filter is_Quit (trace (snd (scrape_single_page je page_num))))
      = length (filter is_Open (trace (snd (scrape_single_page je page_num)))) \<and>
    (\<forall>pre k post. trace (snd (scrape_single_page je page_num)) = pre @ Attempt (Suc k) # post \<longrightarrow>
       length (filter is_Quit pre) = length (filter is_Open pre))"
proof -
  let ?s = "snd (scrape_single_page je page_num)"
  from sessions_ok_job [OF assms, of page_num]
  have ok: "sessions_ok ?s" and none: "driver ?s = None" by auto
  from ok none have counts: "\<forall>d. count_list (trace ?s) (Open d) \<le> 1 \<and>
      count_list (trace ?s) (Quit d) = count_list (trace ?s) (Open d) \<and>
      length (filter (uses_session d) (trace ?s)) \<le> 1"
    by (simp add: sessions_ok_def)
  from ok none have totals: "length (filter is_Quit (trace ?s)) = length (filter is_Open (trace ?s))"
    by (simp add: sessions_ok_def)
  from ok have passes: "\<forall>pre k post. trace ?s = pre @ Attempt (Suc k) # post \<longrightarrow>
       length (filter is_Quit pre) = length (filter is_Open pre)"
    unfolding sessions_ok_def by metis
  from none counts totals passes show ?thesis by blast
qed


lemma sessions_closed_rough_job:
  "constructed rough_job \<and>
   driver (snd (scrape_single_page rough_job 7)) = None \<and>
   count_list (trace (snd (scrape_single_page rough_job 7))) (Open 1) = 1 \<and>
   count_list (trace (snd (scrape_single_page rough_job 7))) (Quit 1) = 1 \<and>
   length (filter is_Quit (trace (snd (scrape_single_page rough_job 7)))) = 3 \<and>
   length (filter is_Open (trace (snd (scrape_single_page rough_job 7)))) = 3"
proof -
  have c: "constructed rough_job" by (simp add: constructed_def rough_job_def)
  have t: "trace (snd (scrape_single_page rough_job 7)) =
     [Open 0, Attempt 0, Get 0 7, Quit 0, RetrySleep, Attempt 1, Open 1, Quit 1, RetrySleep,
      Attempt 2, Open 2, Get 2 7, Quit 2]"
    by (simp add: job_eval rough_job_def)
  show ?thesis
    using sessions_closed_after_construction [OF c, of 7] c by (simp add: t)
qed

text \<open>
  C5. The specification: in every job, each browser session that is opened, the one of the
  constructor included, is closed exactly once on every exit path, an exception among
  them, so that opens and quits are equal in number when the job is over. The code: when
  \<open>setup_driver\<close>, called by the constructor, has started the browser and one of its two
  stealth commands raises, the exception leaves \<open>__init__\<close> and \<open>_scrape_single_page\<close>
  with the session still in \<open>self.driver\<close>; nothing calls \<open>quit\<close>, for whatever page and
  whatever the rest of the job would have met. One session is opened and none is quit.
  The same failure inside the retry loop of \<open>scrape_page\<close> is followed by \<open>quit\<close>, in the
  \<open>except\<close> clause: the second pass of \<open>rough_job\<close> opens session 1 and quits it.
\<close>

theorem constructor_leaves_session_open:
  "scrape_single_page (je\<lparr>on_init := StealthError\<rparr>) page_num
     = (Inl DriverInitError, \<lparr>driver = Some 0, sessions_opened = 1, trace = [Open 0]\<rparr>) \<and>
   length (filter is_Open (trace (snd (scrape_single_page (je\<lparr>on_init := StealthError\<rparr>) page_num)))) = 1 \<and>
   length (filter is_Quit (trace (snd (scrape_single_page (je\<lparr>on_init := StealthError\<rparr>) page_num)))) = 0 \<and>
   count_list (trace (snd (scrape_single_page (je\<lparr>on_init := StealthError\<rparr>) page_num))) (Quit 0) = 0 \<and>
   on_setup (on_attempt rough_job 1) = StealthError \<and>
   count_list (trace (snd (scrape_single_page rough_job 7))) (Open 1) = 1 \<and>
   count_list (trace (snd (scrape_single_page rough_job 7))) (Quit 1) = 1"
proof -
  have leak: "scrape_single_page (je\<lparr>on_init := StealthError\<rparr>) page_num
     = (Inl DriverInitError, \<lparr>driver = Some 0, sessions_opened = 1, trace = [Open 0]\<rparr>)"
    by (simp add: scrape_single_page_def PageScraper_init_def setup_driver_def
        open_session_def log_def)
  have loop: "trace (snd (scrape_single_page rough_job 7)) =
     [Open 0, Attempt 0, Get 0 7, Quit 0, RetrySleep, Attempt 1, Open 1, Quit 1, RetrySleep,
      Attempt 2, Open 2, Get 2 7, Quit 2]"
    by (simp add: job_eval rough_job_def)
  have second: "on_setup (on_attempt rough_job 1) = StealthError"
    by (simp add: rough_job_def)
  show ?thesis
    unfolding leak loop using second by simp
qed

lemma pacing_log: "filter is_pacing (trace (log e s)) = filter is_pacing (trace s) @ (if is_pacing e then [e] else [])"
  by (simp add: log_def)

lemma pacing_quit: "filter is_pacing (trace (quit_driver s)) = filter is_pacing (trace s)"
  by (simp add: quit_driver_def pacing_log is_pacing_def split: option.splits)

lemma pacing_finally: "filter is_pacing (trace (finally_clause s)) = filter is_pacing (trace s)"
  by (simp add: finally_clause_def pacing_quit split: option.splits)

lemma pacing_setup: "filter is_pacing (trace (snd (setup_driver out s))) = filter is_pacing (trace s)"
  by (cases out) (simp_all add: setup_driver_def open_session_def pacing_log is_pacing_def)

lemma pacing_try_body: "filter is_pacing (trace (snd (try_body ae p s))) = filter is_pacing (trace s)"
  using pacing_setup [of "on_setup ae" s]
  by (auto simp: try_body_def pacing_log is_pacing_def
      split: prod.splits sum.splits option.splits page_outcome.splits)

lemma pacing_scrape_loop:
  "retry_count < max_retries \<Longrightarrow>
   \<exists>n. retry_count + n < max_retries \<and>
       filter is_pacing (trace (snd (scrape_loop je p retry_count s)))
         = filter is_pacing (trace s) @ passes retry_count n"
proof (induction je p retry_count s rule: scrape_loop.induct)
  case (1 je p rc s)
  let ?s0 = "log (Attempt rc) s"
  obtain r s1 where body: "try_body (on_attempt je rc) p ?s0 = (r, s1)"
    by (cases "try_body (on_attempt je rc) p ?s0")
  have p1: "filter is_pacing (trace s1) = filter is_pacing (trace s) @ [Attempt rc]"
    using pacing_try_body [of "on_attempt je rc" p ?s0] body
    by (simp add: pacing_log is_pacing_def)
  show ?case
  proof (cases r)
    case (Inr results)
    then have "filter is_pacing (trace (snd (scrape_loop je p rc s)))
       = filter is_pacing (trace s) @ passes rc 0"
      using body "1.prems" p1 by (simp add: scrape_loop.simps [of je p rc s] pacing_finally)
    then show ?thesis using "1.prems" by (intro exI [of _ 0]) simp
  next
    case (Inl e)
    let ?s2 = "(quit_driver s1)\<lparr>driver := None\<rparr>"
    show ?thesis
    proof (cases "rc + 1 < max_retries")
      case True
      let ?s3 = "finally_clause (log RetrySleep ?s2)"
      have p3: "filter is_pacing (trace ?s3) = filter is_pacing (trace s) @ [Attempt rc, RetrySleep]"
        by (simp add: pacing_finally pacing_log pacing_quit p1 is_pacing_def)
      from "1.IH" [OF "1.prems" body [symmetric] Inl refl True True]
      obtain n where n: "rc + 1 + n < max_retries"
        "filter is_pacing (trace (snd (scrape_loop je p (rc + 1) ?s3)))
           = filter is_pacing (trace ?s3) @ passes (rc + 1) n" by blast
      have "filter is_pacing (trace (snd (scrape_loop je p rc s)))
          = filter is_pacing (trace s) @ passes rc (Suc n)"
        using body Inl True "1.prems" n(2) p3
        by (simp add: scrape_loop.simps [of je p rc s] Let_def)
      then show ?thesis using n(1) by (intro exI [of _ "Suc n"]) simp
    next
      case False
      then have "filter is_pacing (trace (snd (scrape_loop je p rc s)))
          = filter is_pacing (trace s) @ passes rc 0"
        using body Inl "1.prems" p1
        by (simp add: scrape_loop.simps [of je p rc s] Let_def pacing_finally pacing_quit)
      then show ?thesis using "1.prems" by (intro exI [of _ 0]) simp
    qed
  qed
qed

lemma try_body_raises:
  "(\<exists>e. fst (try_body ae p s) = Inl e) \<longleftrightarrow>
     on_page ae = NavError \<or>
     (driver s = None \<and> (on_setup ae = NoBrowser \<or> on_setup ae = StealthError))"
  by (cases "on_setup ae"; cases "on_page ae")
     (auto simp: try_body_def setup_driver_def open_session_def log_def split: option.splits)

lemma scrape_loop_returns_list:
  "retry_count < max_retries \<Longrightarrow> \<exists>rs. fst (scrape_loop je p retry_count s) = Some rs"
proof (induction je p retry_count s rule: scrape_loop.induct)
  case (1 je p rc s)
  let ?s0 = "log (Attempt rc) s"
  obtain r s1 where body: "try_body (on_attempt je rc) p ?s0 = (r, s1)"
    by (cases "try_body (on_attempt je rc) p ?s0")
  show ?case
  proof (cases r)
    case (Inr results)
    then show ?thesis using body "1.prems" by (simp add: scrape_loop.simps [of je p rc s])
  next
    case (Inl e)
    show ?thesis
    proof (cases "rc + 1 < max_retries")
      case True
      from "1.IH" [OF "1.prems" body [symmetric] Inl refl True True]
      show ?thesis using body Inl True "1.prems"
        by (simp add: scrape_loop.simps [of je p rc s] Let_def)
    next
      case False
      then show ?thesis using body Inl "1.prems"
        by (simp add: scrape_loop.simps [of je p rc s] Let_def)
    qed
  qed
qed

lemma scrape_loop_exhausted:
  assumes "retry_count < max_retries"
    and "(driver s = None) = (0 < retry_count)"
    and "\<forall>k. retry_count \<le> k \<and> k < max_retries \<longrightarrow> attempt_raises je k"
  shows "fst (scrape_loop je p retry_count s) = Some []"
  using assms
proof (induction je p retry_count s rule: scrape_loop.induct)
  case (1 je p rc s)
  let ?s0 = "log (Attempt rc) s"
  obtain r s1 where body: "try_body (on_attempt je rc) p ?s0 = (r, s1)"
    by (cases "try_body (on_attempt je rc) p ?s0")
  have "attempt_raises je rc" using "1.prems" by simp
  then have "\<exists>e. fst (try_body (on_attempt je rc) p ?s0) = Inl e"
    using "1.prems"(2) unfolding try_body_raises
    by (auto simp: attempt_raises_def log_def)
  then obtain e where Inl: "r = Inl e" using body by auto
  show ?case
  proof (cases "rc + 1 < max_retries")
    case True
    let ?s3 = "finally_clause (log RetrySleep ((quit_driver s1)\<lparr>driver := None\<rparr>))"
    have d3: "driver ?s3 = None"
      by (simp add: finally_clause_def log_def)
    have "fst (scrape_loop je p (rc + 1) ?s3) = Some []"
      using "1.IH" [OF "1.prems"(1) body [symmetric] Inl refl True True] d3 "1.prems"(3)
      by simp
    then show ?thesis using body Inl True "1.prems"(1)
      by (simp add: scrape_loop.simps [of je p rc s] Let_def)
  next
    case False
    then show ?thesis using body Inl "1.prems"(1)
      by (simp add: scrape_loop.simps [of je p rc s] Let_def)
  qed
qed

text \<open>
  C6, as stated, fails: the constructor of \<open>PageScraper\<close> calls \<open>setup_driver\<close> outside the
  retry loop of \<open>scrape_page\<close>, so a browser that cannot be started there makes
  \<open>_scrape_single_page\<close> raise.
\<close>

theorem page_job_raises_counterexample:
  "fst (scrape_single_page no_browser_job 7) = Inl DriverInitError"
  by (simp add: job_eval no_browser_job_def)

text \<open>
  C6, amended. \<open>_scrape_single_page\<close> raises exactly when \<open>setup_driver\<close> fails in the
  constructor. Once the \<open>PageScraper\<close> is constructed, \<open>scrape_page\<close> returns a list (it has
  no path that raises, and never falls out of its loop): every exception of a pass is
  handled in the function; there are at most three passes, consecutive passes separated by
  one sleep; and if all three passes raise, the result is the empty list. In both cases,
  the constructor raising or the three passes raising, the orchestrator's collection loop
  appends the page to \<open>failed_pages\<close> and goes on.
\<close>

theorem page_job_error_handling:
  "(fst (scrape_single_page je p) = Inl DriverInitError) = (\<not> constructed je) \<and>
   (constructed je \<longrightarrow>
      (\<exists>rs. fst (scrape_single_page je p) = Inr (Some rs)) \<and>
      (\<exists>n<max_retries. filter is_pacing (trace (snd (scrape_single_page je p))) = passes 0 n) \<and>
      ((\<forall>k<max_retries. attempt_raises je k) \<longrightarrow>
         fst (scrape_single_page je p) = Inr (Some []))) \<and>
   (job_of w p 0 = je \<and> (\<not> constructed je \<or> (\<forall>k<max_retries. attempt_raises je k)) \<longrightarrow>
      collect w c p = c\<lparr>failed_pages := failed_pages c @ [p]\<rparr>)"
proof (cases "constructed je")
  case False
  then have "fst (scrape_single_page je p) = Inl DriverInitError"
    by (cases "on_init je")
       (auto simp: constructed_def scrape_single_page_def PageScraper_init_def setup_driver_def)
  then show ?thesis
    using False by (auto simp: collect_def)
next
  case True
  let ?s0 = "open_session \<lparr>driver = None, sessions_opened = 0, trace = []\<rparr>"
  note job = scrape_single_page_constructed [OF True, of p]
  have pos: "0 < max_retries" by (simp add: max_retries_def)
  have a: "\<exists>rs. fst (scrape_single_page je p) = Inr (Some rs)"
    using scrape_loop_returns_list [OF pos, of je p ?s0] by (auto simp: job)
  have b: "\<exists>n<max_retries. filter is_pacing (trace (snd (scrape_single_page je p))) = passes 0 n"
    using pacing_scrape_loop [OF pos, of je p ?s0]
    by (auto simp: job open_session_def log_def is_pacing_def)
  have c: "(\<forall>k<max_retries. attempt_raises je k) \<longrightarrow>
       fst (scrape_single_page je p) = Inr (Some [])"
  proof
    assume all: "\<forall>k<max_retries. attempt_raises je k"
    have "fst (scrape_loop je p 0 ?s0) = Some []"
      using all by (intro scrape_loop_exhausted [OF pos]) (auto simp: open_session_def log_def)
    then show "fst (scrape_single_page je p) = Inr (Some [])" by (simp add: job)
  qed
  have d: "job_of w p 0 = je \<and> (\<not> constructed je \<or> (\<forall>k<max_retries. attempt_raises je k)) \<longrightarrow>
      collect w c p = c\<lparr>failed_pages := failed_pages c @ [p]\<rparr>"
    using True c by (auto simp: collect_def)
  have e: "fst (scrape_single_page je p) \<noteq> Inl DriverInitError"
    using a by auto
  from True a b c d e show ?thesis by blast
qed

theorem page_job_error_handling_witness:
  "constructed hopeless_job \<and>
   fst (scrape_single_page hopeless_job 7) = Inr (Some []) \<and>
   filter is_pacing (trace (snd (scrape_single_page hopeless_job 7)))
     = [Attempt 0, RetrySleep, Attempt 1, RetrySleep, Attempt 2]"
proof -
  have c: "constructed hopeless_job" by (simp add: constructed_def hopeless_job_def)
  have r: "\<forall>k<max_retries. attempt_raises hopeless_job k"
    by (simp add: attempt_raises_def hopeless_job_def)
  have t: "filter is_pacing (trace (snd (scrape_single_page hopeless_job 7)))
     = [Attempt 0, RetrySleep, Attempt 1, RetrySleep, Attempt 2]"
    by (simp add: job_eval hopeless_job_def is_pacing_def)
  from page_job_error_handling [of hopeless_job 7 barren "new_crawl no_files"] c r t
  show ?thesis by blast
qed

section \<open>Properties of the crawl orchestrator\<close>

lemma collect_eq:
  "collect w c p = c\<lparr>all_results := all_results c @ page_yield w 0 p,
      failed_pages := failed_pages c @ (if page_yield w 0 p = [] then [p] else [])\<rparr>"
  by (simp add: collect_def page_yield_def split: sum.splits option.splits)

lemma foldl_collect:
  "foldl (collect w) c ps = c\<lparr>all_results := all_results c @ concat (map (page_yield w 0) ps),
      failed_pages := failed_pages c @ filter (\<lambda>p. page_yield w 0 p = []) ps\<rparr>"
  by (induction ps arbitrary: c) (simp_all add: collect_eq)

lemma retry_page_eq:
  "retry_page w c p = c\<lparr>all_results := all_results c @ page_yield w 1 p,
      retried := retried c @ [p]\<rparr>"
  by (simp add: retry_page_def page_yield_def split: sum.splits option.splits)

lemma foldl_retry_page:
  "foldl (retry_page w) c ps = c\<lparr>all_results := all_results c @ concat (map (page_yield w 1) ps),
      retried := retried c @ ps\<rparr>"
  by (induction ps arbitrary: c) (simp_all add: retry_page_eq)

lemma run_batch_eq:
  "run_batch w a b c = c\<lparr>all_results := all_results c
         @ concat (map (page_yield w 0) (sort_key (finish_rank w) [a..b])),
      failed_pages := failed_pages c
         @ filter (\<lambda>p. page_yield w 0 p = []) (sort_key (finish_rank w) [a..b]),
      submitted := submitted c @ [a..b]\<rparr>"
  by (simp add: run_batch_def foldl_collect)

lemma retry_pass_eq:
  "retry_pass w c = c\<lparr>all_results := all_results c
         @ concat (map (page_yield w 1) (failed_pages c)),
      retried := retried c @ failed_pages c\<rparr>"
  by (simp add: retry_pass_def foldl_retry_page)

lemma append_only_grow:
  "append_only c \<Longrightarrow> saved c' = saved c \<Longrightarrow> prefix (all_results c) (all_results c') \<Longrightarrow>
   append_only c'"
  by (auto simp: append_only_def intro: prefix_order.trans)

lemma append_only_flush: "append_only c \<Longrightarrow> append_only (flush w c)"
  by (auto simp: append_only_def flush_def sorted_wrt_append)

lemma append_only_run_batch: "append_only c \<Longrightarrow> append_only (run_batch w a b c)"
  by (erule append_only_grow) (simp_all add: run_batch_eq)

lemma append_only_retry_pass: "append_only c \<Longrightarrow> append_only (retry_pass w c)"
  by (erule append_only_grow) (simp_all add: retry_pass_eq)

lemma mset_concat_map_perm:
  "mset xs = mset ys \<Longrightarrow> mset (concat (map f xs)) = mset (concat (map f ys))"
proof -
  assume "mset xs = mset ys"
  then have "image_mset (\<lambda>x. mset (f x)) (mset xs) = image_mset (\<lambda>x. mset (f x)) (mset ys)"
    by simp
  then have "mset (map (\<lambda>x. mset (f x)) xs) = mset (map (\<lambda>x. mset (f x)) ys)"
    by simp
  then have "sum_list (map (\<lambda>x. mset (f x)) xs) = sum_list (map (\<lambda>x. mset (f x)) ys)"
    by (metis sum_mset_sum_list)
  then show ?thesis by (simp add: mset_concat comp_def)
qed

lemma mset_filter_perm:
  "mset xs = mset ys \<Longrightarrow> mset (filter P xs) = mset (filter P ys)"
  by (simp add: mset_filter)

lemma batch_split:
  assumes "1 \<le> B" "bs \<le> e"
  shows "[bs..e] = [bs..min (bs + B - 1) e] @ [bs + B..e]"
proof (cases "bs + B - 1 \<le> e")
  case True
  then show ?thesis
    using assms upto_split2 [of bs "bs + B - 1" e] by (simp add: min_def)
next
  case False
  then show ?thesis by (simp add: min_def)
qed

lemma batches_no_fault:
  assumes "\<forall>k. loop_fault w k = None" "1 \<le> B"
  shows "fst (batches w B e k bs c) = Inr () \<and>
     submitted (snd (batches w B e k bs c)) = submitted c @ [bs..e] \<and>
     retried (snd (batches w B e k bs c)) = retried c \<and>
     mset (all_results (snd (batches w B e k bs c)))
       = mset (all_results c) + mset (concat (map (page_yield w 0) [bs..e])) \<and>
     mset (failed_pages (snd (batches w B e k bs c)))
       = mset (failed_pages c) + mset (filter (\<lambda>p. page_yield w 0 p = []) [bs..e])"
  using assms
proof (induction w B e k bs c rule: batches.induct)
  case (1 w B e k bs c)
  show ?case
  proof (cases "e < bs")
    case True
    then show ?thesis by (simp add: batches.simps [of w B e k bs c])
  next
    case False
    then have go: "\<not> (B < 1 \<or> e < bs)" using "1.prems" by simp
    let ?be = "min (bs + B - 1) e"
    let ?c1 = "run_batch w bs ?be c"
    have nf: "loop_fault w k \<noteq> Some RaiseAtDispatch" "loop_fault w k \<noteq> Some RaiseBeforeSave"
      using "1.prems" by simp_all
    have step: "batches w B e k bs c = batches w B e (k + 1) (bs + B) (flush w ?c1)"
      using go nf by (simp add: batches.simps [of w B e k bs c] Let_def)
    note IH = "1.IH" [OF go nf(1) refl refl nf(2) "1.prems"]
    have split: "[bs..e] = [bs..?be] @ [bs + B..e]"
      using batch_split [of B bs e] "1.prems" False by simp
    have perm: "mset (sort_key (finish_rank w) [bs..?be]) = mset [bs..?be]" by simp
    have f1: "all_results (flush w ?c1) = all_results ?c1"
      "failed_pages (flush w ?c1) = failed_pages ?c1"
      "submitted (flush w ?c1) = submitted ?c1" "retried (flush w ?c1) = retried ?c1"
      by (simp_all add: flush_def)
    have r1: "mset (all_results ?c1)
        = mset (all_results c) + mset (concat (map (page_yield w 0) [bs..?be]))"
      using mset_concat_map_perm [OF perm, of "page_yield w 0"] by (simp add: run_batch_eq)
    have r2: "mset (failed_pages ?c1)
        = mset (failed_pages c) + mset (filter (\<lambda>p. page_yield w 0 p = []) [bs..?be])"
      using mset_filter_perm [OF perm] by (simp add: run_batch_eq)
    have r3: "submitted ?c1 = submitted c @ [bs..?be]" "retried ?c1 = retried c"
      by (simp_all add: run_batch_eq)
    show ?thesis
      unfolding step using IH
      by (subst (1 2 3) split) (simp add: f1 r1 r2 r3)
  qed
qed

lemma scrape_pages_no_fault:
  assumes "\<forall>k. loop_fault w k = None" "1 \<le> B"
  shows "fst (scrape_pages_with w B s e st) = Inr () \<and>
     submitted (snd (scrape_pages_with w B s e st)) = [s..e] \<and>
     retried (snd (scrape_pages_with w B s e st)) = failed_pages (snd (scrape_pages_with w B s e st)) \<and>
     mset (failed_pages (snd (scrape_pages_with w B s e st)))
       = mset (filter (\<lambda>p. page_yield w 0 p = []) [s..e]) \<and>
     mset (all_results (snd (scrape_pages_with w B s e st)))
       = mset (concat (map (page_yield w 0) [s..e]))
         + mset (concat (map (page_yield w 1) (filter (\<lambda>p. page_yield w 0 p = []) [s..e])))"
proof -
  obtain r c where bc: "batches w B e 0 s (new_crawl st) = (r, c)"
    by (cases "batches w B e 0 s (new_crawl st)")
  from batches_no_fault [OF assms, of e 0 s "new_crawl st"] bc
  have r: "r = Inr ()" and sub: "submitted c = [s..e]" and ret: "retried c = []"
    and res: "mset (all_results c) = mset (concat (map (page_yield w 0) [s..e]))"
    and fp: "mset (failed_pages c) = mset (filter (\<lambda>p. page_yield w 0 p = []) [s..e])"
    by (simp_all add: new_crawl_def)
  have run: "scrape_pages_with w B s e st = (Inr (), flush w (retry_pass w c))"
    by (simp add: scrape_pages_with_def bc r)
  have fl: "all_results (flush w c') = all_results c'" "failed_pages (flush w c') = failed_pages c'"
    "submitted (flush w c') = submitted c'" "retried (flush w c') = retried c'" for c'
    by (simp_all add: flush_def)
  show ?thesis
    using sub ret res fp mset_concat_map_perm [OF fp, of "page_yield w 1"]
    by (simp add: run fl retry_pass_eq)
qed

lemma upto_1_4: "[1..4] = [1, 2, 3, 4 :: int]" "[1..2] = [1, 2 :: int]" "[3..4] = [3, 4 :: int]"
  "[5..4] = ([] :: int list)"
  by (simp_all add: upto_rec1)

lemma scenario_yield:
  "pass < 2 \<Longrightarrow> page_yield (scenario carry rank) pass p =
     (if p = 3 then [] else [tractor p 1, tractor p 2, tractor p 3])"
  by (simp add: page_yield_def scenario_def scenario_attempt_def job_eval)

lemma scenario_fields:
  "finish_rank (scenario carry rank) = rank"
  "loop_fault (scenario carry rank) k = None"
  "io_of (scenario carry rank) n = WriteOk"
  by (simp_all add: scenario_def)

lemma singleton_mset: "mset xs = {#a#} \<Longrightarrow> xs = [a]"
  by (cases xs) (auto simp: add_mset_eq_single)

lemma insort_key_const: "insort_key (\<lambda>p. 0::nat) a xs = a # xs"
  by (cases xs) simp_all

lemma sort_key_const: "sort_key (\<lambda>p. 0::nat) xs = xs"
  by (induction xs) (simp_all add: insort_key_const)

lemma batches_done: "e < bs \<Longrightarrow> batches w B e k bs c = (Inr (), c)"
  by (simp add: batches.simps [of w B e k bs c])

lemma batches_step:
  "1 \<le> B \<Longrightarrow> bs \<le> e \<Longrightarrow> loop_fault w k = None \<Longrightarrow>
   batches w B e k bs c
     = batches w B e (k + 1) (bs + B) (flush w (run_batch w bs (min (bs + B - 1) e) c))"
  by (simp add: batches.simps [of w B e k bs c] Let_def)

lemma batches_raise_at_dispatch:
  "1 \<le> B \<Longrightarrow> bs \<le> e \<Longrightarrow> loop_fault w k = Some RaiseAtDispatch \<Longrightarrow>
   batches w B e k bs c = (Inl LoopError, c)"
  by (simp add: batches.simps [of w B e k bs c])

lemma batches_raise_before_save:
  "1 \<le> B \<Longrightarrow> bs \<le> e \<Longrightarrow> loop_fault w k = Some RaiseBeforeSave \<Longrightarrow>
   batches w B e k bs c = (Inl LoopError, run_batch w bs (min (bs + B - 1) e) c)"
  by (simp add: batches.simps [of w B e k bs c] Let_def)

lemmas crawl_eval = scrape_pages_def scrape_pages_with_def batches_done batches_step
  batches_raise_at_dispatch batches_raise_before_save run_batch_eq
  retry_pass_eq flush_def save_results_def new_crawl_def Let_def upto_1_4 sort_key_const

lemma batches_invariant:
  assumes "P c"
    and "\<And>c a b. P c \<Longrightarrow> bs \<le> a \<Longrightarrow> b \<le> e \<Longrightarrow> P (run_batch w a b c)"
    and "\<And>c. P c \<Longrightarrow> P (flush w c)"
  shows "P (snd (batches w B e k bs c))"
  using assms
proof (induction w B e k bs c rule: batches.induct)
  case (1 w B e k bs c)
  show ?case
  proof (cases "B < 1 \<or> e < bs")
    case True
    then show ?thesis using "1.prems"(1) by (simp add: batches.simps [of w B e k bs c])
  next
    case False
    let ?c1 = "run_batch w bs (min (bs + B - 1) e) c"
    have c1: "P ?c1" using "1.prems"(1) by (intro "1.prems"(2)) simp_all
    show ?thesis
    proof (cases "loop_fault w k")
      case None
      have "P (snd (batches w B e (k + 1) (bs + B) (flush w ?c1)))"
      proof (rule "1.IH" [OF False _ refl refl])
        show "loop_fault w k \<noteq> Some RaiseAtDispatch" "loop_fault w k \<noteq> Some RaiseBeforeSave"
          using None by simp_all
        show "P (flush w ?c1)" using c1 by (rule "1.prems"(3))
        show "P (run_batch w a b c')" if "P c'" "bs + B \<le> a" "b \<le> e" for c' a b
          using that False by (intro "1.prems"(2)) simp_all
        show "P (flush w c')" if "P c'" for c' using that by (rule "1.prems"(3))
      qed
      then show ?thesis
        using False None by (simp add: batches.simps [of w B e k bs c] Let_def)
    next
      case (Some f)
      then show ?thesis
        using False "1.prems"(1) c1
        by (cases f) (simp_all add: batches.simps [of w B e k bs c] Let_def)
    qed
  qed
qed

lemma scrape_pages_invariant:
  assumes "P (new_crawl st)"
    and "\<And>c a b. P c \<Longrightarrow> s \<le> a \<Longrightarrow> b \<le> e \<Longrightarrow> P (run_batch w a b c)"
    and "\<And>c. P c \<Longrightarrow> P (flush w c)"
    and "\<And>c. P c \<Longrightarrow> P (retry_pass w c)"
  shows "P (snd (scrape_pages_with w B s e st))"
proof -
  have "P (snd (batches w B e 0 s (new_crawl st)))"
    using assms(1-3) by (rule batches_invariant)
  then show ?thesis
    using assms(3,4)
    by (auto simp: scrape_pages_with_def split: prod.splits sum.splits)
qed

lemma append_only_crawl: "append_only (snd (scrape_pages_with w B s e st))"
  by (rule scrape_pages_invariant)
     (simp_all add: append_only_run_batch append_only_flush append_only_retry_pass,
      simp add: append_only_def new_crawl_def)

lemma saved_nonempty_crawl:
  "(\<forall>f\<in>set (saved (snd (scrape_pages_with w B s e st))). f \<noteq> []) \<and>
   (saved (snd (scrape_pages_with w B s e st)) = [] \<longrightarrow>
      files (snd (scrape_pages_with w B s e st)) = st)"
  by (rule scrape_pages_invariant)
     (auto simp: new_crawl_def run_batch_eq flush_def retry_pass_eq)

lemma barren_crawl:
  assumes "\<forall>p\<in>set [s..e]. page_yield w 0 p = [] \<and> page_yield w 1 p = []"
  shows "all_results (snd (scrape_pages_with w B s e st)) = [] \<and>
         saved (snd (scrape_pages_with w B s e st)) = [] \<and>
         set (failed_pages (snd (scrape_pages_with w B s e st))) \<subseteq> set [s..e]"
proof (rule scrape_pages_invariant)
  show "all_results (new_crawl st) = [] \<and> saved (new_crawl st) = [] \<and>
        set (failed_pages (new_crawl st)) \<subseteq> set [s..e]"
    by (simp add: new_crawl_def)
next
  fix c :: crawl and a b
  assume c: "all_results c = [] \<and> saved c = [] \<and> set (failed_pages c) \<subseteq> set [s..e]"
    and ab: "s \<le> a" "b \<le> e"
  have "\<forall>p\<in>set (sort_key (finish_rank w) [a..b]). page_yield w 0 p = []"
    using assms ab by auto
  then have "concat (map (page_yield w 0) (sort_key (finish_rank w) [a..b])) = []"
    by simp
  moreover have "set (filter (\<lambda>p. page_yield w 0 p = []) (sort_key (finish_rank w) [a..b]))
      \<subseteq> set [s..e]"
    using ab by auto
  ultimately show "all_results (run_batch w a b c) = [] \<and> saved (run_batch w a b c) = [] \<and>
        set (failed_pages (run_batch w a b c)) \<subseteq> set [s..e]"
    using c by (simp add: run_batch_eq)
next
  fix c :: crawl
  assume c: "all_results c = [] \<and> saved c = [] \<and> set (failed_pages c) \<subseteq> set [s..e]"
  then show "all_results (flush w c) = [] \<and> saved (flush w c) = [] \<and>
        set (failed_pages (flush w c)) \<subseteq> set [s..e]"
    by (simp add: flush_def)
next
  fix c :: crawl
  assume c: "all_results c = [] \<and> saved c = [] \<and> set (failed_pages c) \<subseteq> set [s..e]"
  have "\<forall>p\<in>set (failed_pages c). page_yield w 1 p = []"
    using assms c by auto
  then have "concat (map (page_yield w 1) (failed_pages c)) = []" by simp
  then show "all_results (retry_pass w c) = [] \<and> saved (retry_pass w c) = [] \<and>
        set (failed_pages (retry_pass w c)) \<subseteq> set [s..e]"
    using c by (simp add: retry_pass_eq)
qed

lemma batches_error:
  "fst (batches w B e k bs c) = Inl err \<Longrightarrow>
   err = LoopError \<and> retried (snd (batches w B e k bs c)) = retried c \<and>
   (\<exists>j. loop_fault w j \<noteq> None)"
proof (induction w B e k bs c rule: batches.induct)
  case (1 w B e k bs c)
  show ?case
  proof (cases "B < 1 \<or> e < bs")
    case True
    then show ?thesis using "1.prems" by (simp add: batches.simps [of w B e k bs c])
  next
    case False
    show ?thesis
    proof (cases "loop_fault w k")
      case None
      then show ?thesis
        using False "1.prems" "1.IH" [OF False _ refl refl]
        by (simp add: batches.simps [of w B e k bs c] Let_def run_batch_eq flush_def)
    next
      case (Some f)
      then have "\<exists>j. loop_fault w j \<noteq> None" by (intro exI [of _ k]) simp
      then show ?thesis
        using False Some "1.prems"
        by (cases f) (simp_all add: batches.simps [of w B e k bs c] Let_def run_batch_eq)
    qed
  qed
qed

text \<open>
  C1. In a crawl whose batch loop raises nothing, for every batch size of at least 1 (the
  source has 2) and every page range: the pages submitted in the main pass are exactly
  \<open>start_page..end_page\<close>, each once; the pages retried afterwards are the failed pages,
  which are the pages whose job of the main pass gave no record; and the accumulated
  records are, as a multiset, the records of the jobs of the main pass on every page
  together with those of the retry jobs on the failed pages, each job counted once, in
  whatever order the jobs of a batch complete. When the retry job of every page meets what
  the first job met, this is the records of one job per page.
\<close>

theorem batching_keeps_job_results:
  assumes "1 \<le> B" and "\<forall>k. loop_fault w k = None"
  shows "fst (scrape_pages_with w B s e st) = Inr () \<and>
     submitted (snd (scrape_pages_with w B s e st)) = [s..e] \<and>
     retried (snd (scrape_pages_with w B s e st)) = failed_pages (snd (scrape_pages_with w B s e st)) \<and>
     mset (failed_pages (snd (scrape_pages_with w B s e st)))
       = mset (filter (\<lambda>p. page_yield w 0 p = []) [s..e]) \<and>
     mset (all_results (snd (scrape_pages_with w B s e st)))
       = mset (concat (map (page_yield w 0) [s..e]))
         + mset (concat (map (page_yield w 1) (filter (\<lambda>p. page_yield w 0 p = []) [s..e]))) \<and>
     ((\<forall>p. job_of w p 1 = job_of w p 0) \<longrightarrow>
        mset (all_results (snd (scrape_pages_with w B s e st)))
          = mset (concat (map (page_yield w 0) [s..e])))"
proof -
  note run = scrape_pages_no_fault [OF assms(2,1), of s e st]
  have "concat (map (page_yield w 1) (filter (\<lambda>p. page_yield w 0 p = []) [s..e])) = []"
    if "\<forall>p. job_of w p 1 = job_of w p 0"
  proof -
    have "page_yield w 1 p = page_yield w 0 p" for p
      using that by (simp add: page_yield_def)
    then show ?thesis by simp
  qed
  with run show ?thesis by simp
qed

theorem batching_keeps_job_results_witness:
  "(1::int) \<le> 2 \<and> (\<forall>k. loop_fault (scenario True (\<lambda>p. 0)) k = None) \<and>
   submitted (snd (scrape_pages (scenario True (\<lambda>p. 0)) 1 4 no_files)) = [1, 2, 3, 4] \<and>
   mset (all_results (snd (scrape_pages (scenario True (\<lambda>p. 0)) 1 4 no_files)))
     = mset [tractor 1 1, tractor 1 2, tractor 1 3, tractor 2 1, tractor 2 2, tractor 2 3,
             tractor 4 1, tractor 4 2, tractor 4 3]"
proof -
  have nf: "\<forall>k. loop_fault (scenario True (\<lambda>p. 0)) k = None"
    by (simp add: scenario_fields)
  have one: "(1::int) \<le> 2" by simp
  from batching_keeps_job_results [OF one nf, of 1 4 no_files] nf
  show ?thesis
    by (simp add: scrape_pages_def upto_1_4 scenario_yield)
qed

text \<open>
  C2, as stated, fails. Page 3 times out in the job of the main pass, which returns the
  empty list at once (a timeout of the wait is not retried by \<open>scrape_page\<close>), and again
  in the retry job; the third attempt is never made. \<open>failed_pages\<close> is never shortened.
\<close>

theorem scenario_eleven_records_counterexample:
  "length (all_results (snd (scrape_pages (scenario True (\<lambda>p. 0)) 1 4 no_files))) \<noteq> 11 \<and>
   failed_pages (snd (scrape_pages (scenario True (\<lambda>p. 0)) 1 4 no_files)) \<noteq> []"
  by (simp add: crawl_eval scenario_fields scenario_yield)

text \<open>
  C2, amended: in the scenario, for every order of completion, whether the attempts on
  page 3 are counted across its two jobs or per job, and whatever the files held, the
  crawl ends normally with 9 records (3 + 3 + 3, from pages 1, 2 and 4), and
  \<open>failed_pages\<close> is \<open>[3]\<close> after the retry pass.
\<close>

theorem scenario_nine_records:
  "fst (scrape_pages (scenario carry rank) 1 4 st) = Inr () \<and>
   length (all_results (snd (scrape_pages (scenario carry rank) 1 4 st))) = 9 \<and>
   mset (all_results (snd (scrape_pages (scenario carry rank) 1 4 st)))
     = mset [tractor 1 1, tractor 1 2, tractor 1 3, tractor 2 1, tractor 2 2, tractor 2 3,
             tractor 4 1, tractor 4 2, tractor 4 3] \<and>
   failed_pages (snd (scrape_pages (scenario carry rank) 1 4 st)) = [3]"
proof -
  let ?w = "scenario carry rank"
  let ?c = "snd (scrape_pages (scenario carry rank) 1 4 st)"
  have nf: "\<forall>k. loop_fault ?w k = None" by (simp add: scenario_fields)
  note run = scrape_pages_no_fault [OF nf, of 2 1 4 st, folded scrape_pages_def]
  have failed: "filter (\<lambda>p. page_yield ?w 0 p = []) [1..4] = [3]"
    by (simp add: upto_1_4 scenario_yield)
  have "mset (failed_pages ?c) = {#3#}" using run failed by simp
  then have a: "failed_pages ?c = [3]" by (rule singleton_mset)
  have m: "mset (all_results ?c)
     = mset [tractor 1 1, tractor 1 2, tractor 1 3, tractor 2 1, tractor 2 2, tractor 2 3,
             tractor 4 1, tractor 4 2, tractor 4 3]"
    using run by (simp add: failed) (simp add: upto_1_4 scenario_yield)
  have "size (mset (all_results ?c)) = 9" unfolding m by simp
  then have b: "length (all_results ?c) = 9" by simp
  from a b m run show ?thesis by simp
qed

text \<open>
  C3. In every crawl, whatever the jobs return, whatever fails and for every batch size:
  of two sets handed to \<open>save_results\<close>, the earlier is a prefix of the later, so the
  later contains it and has at least as many records; and every set handed over is a
  prefix of the records accumulated at the end.
\<close>

theorem saved_sets_only_grow:
  assumes "i < j" and "j < length (saved (snd (scrape_pages_with w B s e st)))"
  shows "prefix (saved (snd (scrape_pages_with w B s e st)) ! i)
           (saved (snd (scrape_pages_with w B s e st)) ! j) \<and>
     set (saved (snd (scrape_pages_with w B s e st)) ! i)
       \<subseteq> set (saved (snd (scrape_pages_with w B s e st)) ! j) \<and>
     length (saved (snd (scrape_pages_with w B s e st)) ! i)
       \<le> length (saved (snd (scrape_pages_with w B s e st)) ! j) \<and>
     prefix (saved (snd (scrape_pages_with w B s e st)) ! j)
       (all_results (snd (scrape_pages_with w B s e st)))"
proof -
  let ?c = "snd (scrape_pages_with w B s e st)"
  have ao: "sorted_wrt prefix (saved ?c)" "\<forall>f\<in>set (saved ?c). prefix f (all_results ?c)"
    using append_only_crawl [of w B s e st] by (simp_all add: append_only_def)
  have p: "prefix (saved ?c ! i) (saved ?c ! j)"
    using ao(1) assms by (simp add: sorted_wrt_iff_nth_less)
  have q: "prefix (saved ?c ! j) (all_results ?c)"
    using ao(2) assms(2) by simp
  from p q show ?thesis
    by (auto simp: prefix_length_le dest: set_mono_prefix)
qed

theorem saved_sets_only_grow_witness:
  "(0::nat) < 1 \<and> 1 < length (saved (snd (scrape_pages (scenario True (\<lambda>p. 0)) 1 4 no_files))) \<and>
   length (saved (snd (scrape_pages (scenario True (\<lambda>p. 0)) 1 4 no_files)) ! 0) = 6 \<and>
   length (saved (snd (scrape_pages (scenario True (\<lambda>p. 0)) 1 4 no_files)) ! 1) = 9 \<and>
   prefix (saved (snd (scrape_pages (scenario True (\<lambda>p. 0)) 1 4 no_files)) ! 0)
     (saved (snd (scrape_pages (scenario True (\<lambda>p. 0)) 1 4 no_files)) ! 1)"
proof -
  have sv: "saved (snd (scrape_pages_with (scenario True (\<lambda>p. 0)) 2 1 4 no_files)) =
     [[tractor 1 1, tractor 1 2, tractor 1 3, tractor 2 1, tractor 2 2, tractor 2 3],
      [tractor 1 1, tractor 1 2, tractor 1 3, tractor 2 1, tractor 2 2, tractor 2 3,
       tractor 4 1, tractor 4 2, tractor 4 3],
      [tractor 1 1, tractor 1 2, tractor 1 3, tractor 2 1, tractor 2 2, tractor 2 3,
       tractor 4 1, tractor 4 2, tractor 4 3]]"
    by (simp add: crawl_eval scenario_fields scenario_yield)
  have i: "(0::nat) < 1" by simp
  have j: "1 < length (saved (snd (scrape_pages_with (scenario True (\<lambda>p. 0)) 2 1 4 no_files)))"
    by (simp add: sv)
  from saved_sets_only_grow [OF i j] i j show ?thesis
    by (simp add: scrape_pages_def sv)
qed

lemma faulty_scenario_fields:
  "finish_rank (faulty_scenario f) = (\<lambda>p. 0)"
  "loop_fault (faulty_scenario f) k = (if k = 1 then Some f else None)"
  "io_of (faulty_scenario f) n = WriteOk"
  "page_yield (faulty_scenario f) pass p = page_yield (scenario True (\<lambda>p. 0)) pass p"
  by (simp_all add: faulty_scenario_def scenario_def page_yield_def)

lemma barren_yield: "page_yield barren pass p = []"
  by (simp add: page_yield_def barren_def job_eval)

lemma barren_fields:
  "finish_rank barren = (\<lambda>p. 0)" "loop_fault barren k = None" "io_of barren n = WriteOk"
  by (simp_all add: barren_def)

text \<open>
  C4, as stated, fails. In the scenario's world, let the batch loop raise in its second
  pass, after the results of pages 3 and 4 were collected and before they are saved:
  \<open>scrape_pages\<close> re-raises with 9 records accumulated, while \<open>save_results\<close> was called
  once, after the first batch, with 6 records, and the files hold those 6.
\<close>

theorem fatal_exit_without_flush_counterexample:
  "fst (scrape_pages (faulty_scenario RaiseBeforeSave) 1 4 no_files) = Inl LoopError \<and>
   all_results (snd (scrape_pages (faulty_scenario RaiseBeforeSave) 1 4 no_files))
     = [tractor 1 1, tractor 1 2, tractor 1 3, tractor 2 1, tractor 2 2, tractor 2 3,
        tractor 4 1, tractor 4 2, tractor 4 3] \<and>
   saved (snd (scrape_pages (faulty_scenario RaiseBeforeSave) 1 4 no_files))
     = [[tractor 1 1, tractor 1 2, tractor 1 3, tractor 2 1, tractor 2 2, tractor 2 3]] \<and>
   json_file (files (snd (scrape_pages (faulty_scenario RaiseBeforeSave) 1 4 no_files)))
     = Holds [tractor 1 1, tractor 1 2, tractor 1 3, tractor 2 1, tractor 2 2, tractor 2 3]"
  by (simp add: crawl_eval faulty_scenario_fields scenario_yield no_files_def)

text \<open>
  C4, amended: when \<open>scrape_pages\<close> raises, the error is the one the batch loop raised,
  and the crawl is left in the state the loop was in at that point: no call of
  \<open>save_results\<close> is added, and the retry pass has not run. Every set saved before is a
  prefix of the accumulated records; what was collected after the last save is not saved.
\<close>

theorem fatal_exit_keeps_last_flush:
  assumes "fst (scrape_pages_with w B s e st) = Inl err"
  shows "err = LoopError \<and> (\<exists>k. loop_fault w k \<noteq> None) \<and>
     scrape_pages_with w B s e st = batches w B e 0 s (new_crawl st) \<and>
     retried (snd (scrape_pages_with w B s e st)) = [] \<and>
     (\<forall>f\<in>set (saved (snd (scrape_pages_with w B s e st))).
        prefix f (all_results (snd (scrape_pages_with w B s e st))))"
proof -
  obtain r c where bc: "batches w B e 0 s (new_crawl st) = (r, c)"
    by (cases "batches w B e 0 s (new_crawl st)")
  from assms bc have r: "r = Inl err"
    by (cases r) (simp_all add: scrape_pages_with_def)
  then have same: "scrape_pages_with w B s e st = batches w B e 0 s (new_crawl st)"
    using bc by (simp add: scrape_pages_with_def)
  have "fst (batches w B e 0 s (new_crawl st)) = Inl err" using bc r by simp
  from batches_error [OF this]
  have e: "err = LoopError" "retried (snd (scrape_pages_with w B s e st)) = []"
    "\<exists>k. loop_fault w k \<noteq> None"
    by (simp_all add: same new_crawl_def)
  have "\<forall>f\<in>set (saved (snd (scrape_pages_with w B s e st))).
        prefix f (all_results (snd (scrape_pages_with w B s e st)))"
    using append_only_crawl [of w B s e st] by (simp add: append_only_def)
  with e same show ?thesis by simp
qed

theorem fatal_exit_keeps_last_flush_witness:
  "fst (scrape_pages (faulty_scenario RaiseAtDispatch) 1 4 no_files) = Inl LoopError \<and>
   retried (snd (scrape_pages (faulty_scenario RaiseAtDispatch) 1 4 no_files)) = [] \<and>
   length (saved (snd (scrape_pages (faulty_scenario RaiseAtDispatch) 1 4 no_files))) = 1"
proof -
  have a: "fst (scrape_pages_with (faulty_scenario RaiseAtDispatch) 2 1 4 no_files) = Inl LoopError"
    by (simp add: crawl_eval faulty_scenario_fields scenario_yield no_files_def)
  have b: "length (saved (snd (scrape_pages_with (faulty_scenario RaiseAtDispatch) 2 1 4 no_files))) = 1"
    by (simp add: crawl_eval faulty_scenario_fields scenario_yield no_files_def)
  from fatal_exit_keeps_last_flush [OF a]
  have r: "retried (snd (scrape_pages_with (faulty_scenario RaiseAtDispatch) 2 1 4 no_files)) = []"
    by blast
  from a b r show ?thesis
    by (simp only: scrape_pages_def simp_thms)
qed

text \<open>
  C10. \<open>save_results\<close> with no record leaves the files as they are. In every crawl, no
  set handed to \<open>save_results\<close> is empty, and as long as nothing was handed over the files
  are those the crawl started with. When no job on a page of the range yields a record,
  in the main pass or in the retry pass, nothing is accumulated, \<open>save_results\<close> is never
  called, and the files at the end are those at the start.
\<close>

theorem empty_set_never_saved:
  "save_results io [] st0 = st0 \<and>
   (\<forall>f\<in>set (saved (snd (scrape_pages_with w B s e st))). f \<noteq> []) \<and>
   (saved (snd (scrape_pages_with w B s e st)) = [] \<longrightarrow>
      files (snd (scrape_pages_with w B s e st)) = st) \<and>
   ((\<forall>p\<in>set [s..e]. page_yield w 0 p = [] \<and> page_yield w 1 p = []) \<longrightarrow>
      all_results (snd (scrape_pages_with w B s e st)) = [] \<and>
      saved (snd (scrape_pages_with w B s e st)) = [] \<and>
      files (snd (scrape_pages_with w B s e st)) = st)"
proof -
  have a: "save_results io [] st0 = st0" by (simp add: save_results_def)
  note b = saved_nonempty_crawl [of w B s e st]
  have c: "all_results (snd (scrape_pages_with w B s e st)) = [] \<and>
      saved (snd (scrape_pages_with w B s e st)) = [] \<and>
      files (snd (scrape_pages_with w B s e st)) = st"
    if "\<forall>p\<in>set [s..e]. page_yield w 0 p = [] \<and> page_yield w 1 p = []"
    using barren_crawl [OF that, of B st] b by simp
  from a b c show ?thesis by blast
qed

theorem empty_set_never_saved_witness:
  "(\<forall>p. page_yield barren 0 p = [] \<and> page_yield barren 1 p = []) \<and>
   all_results (snd (scrape_pages barren 1 4 old_files)) = [] \<and>
   saved (snd (scrape_pages barren 1 4 old_files)) = [] \<and>
   files (snd (scrape_pages barren 1 4 old_files)) = old_files \<and>
   failed_pages (snd (scrape_pages barren 1 4 old_files)) = [1, 2, 3, 4]"
proof -
  have y: "\<forall>p. page_yield barren 0 p = [] \<and> page_yield barren 1 p = []"
    by (simp add: barren_yield)
  then have h: "\<forall>p\<in>set [1..4]. page_yield barren 0 p = [] \<and> page_yield barren 1 p = []"
    by simp
  have f: "failed_pages (snd (scrape_pages barren 1 4 old_files)) = [1, 2, 3, 4]"
    by (simp add: crawl_eval barren_fields barren_yield)
  from empty_set_never_saved [of WriteOk old_files barren 2 1 4 old_files] h y f
  show ?thesis by (simp add: scrape_pages_def)
qed

end
